theory Spec2Isabelle
  imports Complex_Main "HOL-Library.Multiset"
begin

section \<open>Python primitives used by the notebook\<close>

text \<open>
  The two functions with procedural logic in \<^verbatim>\<open>20_llm_large_language_model.ipynb\<close> are
  \<^verbatim>\<open>preprocess_text\<close> and \<^verbatim>\<open>generate_text\<close>. Both are plain Python over lists, dicts
  and unbounded integers, so identifiers and every length parameter are \<open>int\<close>, and list
  slicing is modelled with Python's rules for negative and out-of-range bounds.
  The exceptions the code can raise by itself are values of \<open>error\<close>.
\<close>

datatype error = IndexError | ValueError

text \<open>
  A slice bound \<open>i\<close> on a list of length \<open>n\<close>: a negative bound counts from the end and
  stops at 0, a bound beyond the end stops at \<open>n\<close>.
\<close>

definition norm_index :: "nat \<Rightarrow> int \<Rightarrow> nat" where
  "norm_index n i = (if i < 0 then nat (int n + i) else min (nat i) n)"

text \<open>\<^verbatim>\<open>xs[lo:hi]\<close>, \<^verbatim>\<open>xs[:hi]\<close> and \<^verbatim>\<open>xs[lo:]\<close>.\<close>

definition py_slice :: "'a list \<Rightarrow> int \<Rightarrow> int \<Rightarrow> 'a list" where
  "py_slice xs lo hi =
     (let l = norm_index (length xs) lo; h = norm_index (length xs) hi
      in take (h - l) (drop l xs))"

definition py_slice_to :: "'a list \<Rightarrow> int \<Rightarrow> 'a list" where
  "py_slice_to xs hi = take (norm_index (length xs) hi) xs"

definition py_slice_from :: "'a list \<Rightarrow> int \<Rightarrow> 'a list" where
  "py_slice_from xs lo = drop (norm_index (length xs) lo) xs"

text \<open>\<^verbatim>\<open>[x] * n\<close>: the empty list when \<open>n\<close> is not positive.\<close>

definition py_repeat :: "'a \<Rightarrow> int \<Rightarrow> 'a list" where
  "py_repeat x n = replicate (nat n) x"

text \<open>
  \<^verbatim>\<open>range(start, stop, step)\<close> for a step other than 0 (a step of 0 raises
  \<^verbatim>\<open>ValueError\<close>, which the caller models).
\<close>

function py_range :: "int \<Rightarrow> int \<Rightarrow> int \<Rightarrow> int list" where
  "py_range i stop step =
     (if 0 < step \<and> i < stop then i # py_range (i + step) stop step
      else if step < 0 \<and> stop < i then i # py_range (i + step) stop step
      else [])"
  by pat_completeness auto
termination
  by (relation "measure (\<lambda>(i, stop, step). nat (if 0 < step then stop - i else i - stop))") auto

declare py_range.simps [simp del]

text \<open>
  A dict is the list of its items in insertion order, with distinct keys.
  \<^verbatim>\<open>d.get(k, default)\<close> and \<^verbatim>\<open>d[k] = v\<close> (which keeps the position of a key that is
  already present and appends a new one).
\<close>

type_synonym ('k, 'v) dict = "('k \<times> 'v) list"

definition dict_get :: "('k, 'v) dict \<Rightarrow> 'k \<Rightarrow> 'v \<Rightarrow> 'v" where
  "dict_get d k dflt = (case map_of d k of None \<Rightarrow> dflt | Some v \<Rightarrow> v)"

definition dict_set :: "('k, 'v) dict \<Rightarrow> 'k \<Rightarrow> 'v \<Rightarrow> ('k, 'v) dict" where
  "dict_set d k v =
     (if k \<in> fst ` set d then map (\<lambda>(k', v'). if k' = k then (k', v) else (k', v')) d
      else d @ [(k, v)])"

text \<open>A dict comprehension \<^verbatim>\<open>{k: v for ...}\<close> stores the produced items one by one.\<close>

definition dict_of_items :: "('k \<times> 'v) list \<Rightarrow> ('k, 'v) dict" where
  "dict_of_items items = fold (\<lambda>(k, v) d. dict_set d k v) items []"

text \<open>
  \<^verbatim>\<open>collections.Counter(xs)\<close> counts the elements in order of first occurrence, and
  \<^verbatim>\<open>most_common(n)\<close> returns the \<open>n\<close> items with the highest counts, ties in order of
  first occurrence (a stable sort by descending count), and no item when \<open>n \<le> 0\<close>.
\<close>

definition Counter :: "'k list \<Rightarrow> ('k, int) dict" where
  "Counter xs = fold (\<lambda>x c. dict_set c x (dict_get c x 0 + 1)) xs []"

definition most_common :: "int \<Rightarrow> ('k, int) dict \<Rightarrow> ('k \<times> int) list" where
  "most_common n c = take (nat n) (sort_key (\<lambda>kv. - snd kv) c)"

text \<open>\<^verbatim>\<open>enumerate(xs)\<close> and \<^verbatim>\<open>' '.join(ws)\<close>.\<close>

definition enumerate_from0 :: "'a list \<Rightarrow> (int \<times> 'a) list" where
  "enumerate_from0 xs = zip (map int [0..<length xs]) xs"

fun join_space :: "string list \<Rightarrow> string" where
  "join_space [] = []"
| "join_space [w] = w"
| "join_space (w # ws) = w @ '' '' @ join_space ws"

section \<open>The libraries outside the repository\<close>

text \<open>
  NLTK's tokenizer and \<^verbatim>\<open>str.lower\<close> are not part of the repository: the composite
  \<^verbatim>\<open>word_tokenize(text.lower())\<close>, which both functions apply to their text, is a
  parameter of type \<open>tokenizer\<close>. The trained network is a parameter as well:
  \<^verbatim>\<open>model.predict(np.array([window]))[0]\<close>, one row of real numbers for every position
  of the window. numpy's arithmetic is taken over the real numbers: rounding, overflow
  and underflow are not modelled. Where numpy would compute \<^verbatim>\<open>inf\<close> or \<^verbatim>\<open>nan\<close> without
  raising (the logarithm of a number that is not positive, a temperature of 0), the
  model has the value HOL gives the expression. What lines 205 to 207 choose under
  numpy's floating-point arithmetic is therefore not settled by this model: no theorem
  about the loop depends on which identifier is chosen, and the lemmas about the chosen
  identifier serve to run the examples, whose entries lie far apart.
\<close>

type_synonym tokenizer = "string \<Rightarrow> string list"
type_synonym vocab = "(string, int) dict"
type_synonym predictor = "int list \<Rightarrow> real list list"

text \<open>
  A tokenizer for examples: it splits at single spaces, which is what the library does
  on lower-case words separated by single spaces.
\<close>

fun split_spaces :: "string \<Rightarrow> string \<Rightarrow> string list" where
  "split_spaces acc [] = (if acc = [] then [] else [acc])"
| "split_spaces acc (c # cs) =
     (if c = CHR '' '' then (if acc = [] then split_spaces [] cs else acc # split_spaces [] cs)
      else split_spaces (acc @ [c]) cs)"

definition simple_tokenize :: tokenizer where
  "simple_tokenize s = split_spaces [] s"

text \<open>
  \<^verbatim>\<open>s.split()\<close>, which line 226 applies to the generated text, on ASCII text: the text
  is cut at every run of white-space characters, and below 128 the white-space
  characters of Python are the codes 9 to 13, 28 to 31 and 32.
\<close>

definition is_space :: "char \<Rightarrow> bool" where
  "is_space c = (of_char c \<in> set [9, 10, 11, 12, 13, 28, 29, 30, 31, 32 :: nat])"

fun split_whitespace :: "string \<Rightarrow> string \<Rightarrow> string list" where
  "split_whitespace acc [] = (if acc = [] then [] else [acc])"
| "split_whitespace acc (c # cs) =
     (if is_space c
      then (if acc = [] then split_whitespace [] cs else acc # split_whitespace [] cs)
      else split_whitespace (acc @ [c]) cs)"

definition py_split :: "string \<Rightarrow> string list" where
  "py_split s = split_whitespace [] s"

section \<open>preprocess_text\<close>

text \<open>
  Lines 177 to 180: the vocabulary. The \<open>vocab_size - 1\<close> most common tokens get the
  identifiers 1, 2, ... in order, then \<^verbatim>\<open>vocab['<PAD>'] = 0\<close>.
\<close>

definition PAD :: string where
  "PAD = ''<PAD>''"

definition most_common_words :: "string list \<Rightarrow> int \<Rightarrow> string list" where
  "most_common_words all_tokens vocab_size =
     map fst (most_common (vocab_size - 1) (Counter all_tokens))"

definition build_vocab :: "string list \<Rightarrow> int \<Rightarrow> vocab" where
  "build_vocab all_tokens vocab_size =
     dict_set
       (dict_of_items
          (map (\<lambda>(idx, word). (word, idx + 1))
               (enumerate_from0 (most_common_words all_tokens vocab_size))))
       PAD 0"

text \<open>
  Lines 182 to 185: the identifiers of the corpus, cut into windows that start at
  \<open>0, seq_length, 2 * seq_length, ...\<close> below \<open>len(token_ids) - seq_length\<close>, at most
  \<open>max_sequences\<close> of them kept, each padded with 0 to \<open>seq_length\<close>.
\<close>

definition windows :: "int list \<Rightarrow> int \<Rightarrow> int list list" where
  "windows token_ids seq_length =
     map (\<lambda>i. py_slice token_ids i (i + seq_length))
         (py_range 0 (int (length token_ids) - seq_length) seq_length)"

definition pad_sequence :: "int \<Rightarrow> int list \<Rightarrow> int list" where
  "pad_sequence seq_length seq = seq @ py_repeat 0 (seq_length - int (length seq))"

definition preprocess_text ::
  "tokenizer \<Rightarrow> string list \<Rightarrow> int \<Rightarrow> int \<Rightarrow> int \<Rightarrow> error + (int list list \<times> vocab)" where
  "preprocess_text tok texts vocab_size seq_length max_sequences =
     (let all_tokens = concat (map tok texts);
          vocab = build_vocab all_tokens vocab_size;
          token_ids = map (\<lambda>token. dict_get vocab token 0) all_tokens
      in if seq_length = 0 then Inl ValueError
         else
           let sequences = windows token_ids seq_length;
               sequences = py_slice_to sequences max_sequences;
               sequences = map (pad_sequence seq_length) sequences
           in Inr (sequences, vocab))"

section \<open>generate_text\<close>

text \<open>
  Line 198: the inverse vocabulary \<^verbatim>\<open>{v: k for k, v in vocab.items()}\<close>; of two words
  with the same identifier the later one stays.
\<close>

definition inv_vocab :: "vocab \<Rightarrow> (int, string) dict" where
  "inv_vocab vocab = dict_of_items (map (\<lambda>(k, v). (v, k)) vocab)"

text \<open>Lines 199 and 200: the identifiers of the seed, cut and padded.\<close>

definition seed_ids :: "tokenizer \<Rightarrow> vocab \<Rightarrow> string \<Rightarrow> int list" where
  "seed_ids tok vocab seed_text = map (\<lambda>word. dict_get vocab word 0) (tok seed_text)"

definition initial_tokens :: "tokenizer \<Rightarrow> vocab \<Rightarrow> string \<Rightarrow> int \<Rightarrow> int list" where
  "initial_tokens tok vocab seed_text seq_length =
     (let tokens = seed_ids tok vocab seed_text
      in py_slice_to tokens (seq_length - 1)
         @ py_repeat 0 (seq_length - 1 - int (length tokens)))"

text \<open>Line 202: the window \<^verbatim>\<open>tokens[-(seq_length - 1):]\<close> given to the network.\<close>

definition input_seq :: "int \<Rightarrow> int list \<Rightarrow> int list" where
  "input_seq seq_length tokens = py_slice_from tokens (- (seq_length - 1))"

text \<open>
  Lines 205 and 206, over the whole output of the network: the logarithm of every
  entry plus \<open>1e-10\<close>, divided by the temperature, then the exponential of every entry
  divided by the sum of all exponentials.
\<close>

definition log_input :: "real \<Rightarrow> real" where
  "log_input p = p + 1 / 10 ^ 10"

definition temperature_rescale :: "real \<Rightarrow> real list list \<Rightarrow> real list list" where
  "temperature_rescale temperature pred =
     (let logits = map (map (\<lambda>p. ln (log_input p) / temperature)) pred;
          total = sum_list (map sum_list (map (map exp) logits))
      in map (map (\<lambda>x. exp x / total)) logits)"

text \<open>
  \<^verbatim>\<open>np.argmax\<close> of a vector: the first index of the maximum, \<^verbatim>\<open>ValueError\<close> on an empty
  vector.
\<close>

fun argmax_loop :: "real list \<Rightarrow> nat \<Rightarrow> nat \<Rightarrow> real \<Rightarrow> nat" where
  "argmax_loop [] i best bv = best"
| "argmax_loop (x # xs) i best bv =
     (if bv < x then argmax_loop xs (Suc i) i x else argmax_loop xs (Suc i) best bv)"

fun np_argmax :: "real list \<Rightarrow> error + nat" where
  "np_argmax [] = Inl ValueError"
| "np_argmax (x # xs) = Inr (argmax_loop xs 1 0 x)"

text \<open>
  Line 207: \<^verbatim>\<open>np.argmax(pred[0, -1])\<close>, the arg-max of the last row; \<^verbatim>\<open>IndexError\<close>
  when the output has no row.
\<close>

definition next_token :: "real \<Rightarrow> real list list \<Rightarrow> error + int" where
  "next_token temperature pred =
     (let pred = temperature_rescale temperature pred
      in if pred = [] then Inl IndexError
         else (case np_argmax (last pred) of Inl e \<Rightarrow> Inl e | Inr i \<Rightarrow> Inr (int i)))"

text \<open>
  The state of the loop of lines 201 to 208: the list \<open>tokens\<close>, and the windows the
  network has been asked about so far, oldest first.
\<close>

record gen_state =
  tokens :: "int list"
  queries :: "int list list"

fun decode_loop :: "predictor \<Rightarrow> int \<Rightarrow> real \<Rightarrow> nat \<Rightarrow> gen_state \<Rightarrow> error + gen_state" where
  "decode_loop model seq_length temperature 0 st = Inr st"
| "decode_loop model seq_length temperature (Suc n) st =
     (let window = input_seq seq_length (tokens st)
      in case next_token temperature (model window) of
           Inl e \<Rightarrow> Inl e
         | Inr t \<Rightarrow>
             decode_loop model seq_length temperature n
               \<lparr>tokens = tokens st @ [t], queries = queries st @ [window]\<rparr>)"

definition generate_state ::
  "tokenizer \<Rightarrow> predictor \<Rightarrow> vocab \<Rightarrow> string \<Rightarrow> int \<Rightarrow> int \<Rightarrow> real \<Rightarrow> error + gen_state" where
  "generate_state tok model vocab seed_text seq_length len temperature =
     decode_loop model seq_length temperature (nat len)
       \<lparr>tokens = initial_tokens tok vocab seed_text seq_length, queries = []\<rparr>"

definition inv_word :: "vocab \<Rightarrow> int \<Rightarrow> string" where
  "inv_word vocab t = dict_get (inv_vocab vocab) t PAD"

definition generate_text ::
  "tokenizer \<Rightarrow> predictor \<Rightarrow> vocab \<Rightarrow> string \<Rightarrow> int \<Rightarrow> int \<Rightarrow> real \<Rightarrow> error + string" where
  "generate_text tok model vocab seed_text seq_length len temperature =
     (case generate_state tok model vocab seed_text seq_length len temperature of
        Inl e \<Rightarrow> Inl e
      | Inr st \<Rightarrow> Inr (join_space (map (inv_word vocab) (tokens st))))"

section \<open>A small instance\<close>

text \<open>
  The vocabulary \<^verbatim>\<open>{"<PAD>": 0, "save": 1, "money": 2}\<close>, and a network that gives one
  row for every position of its window: after the identifier 1 it favours 2, after
  anything else it favours 1.
\<close>

definition example_vocab :: vocab where
  "example_vocab = [(''<PAD>'', 0), (''save'', 1), (''money'', 2)]"

definition example_model :: predictor where
  "example_model w = map (\<lambda>t. if t = 1 then [1 / 10, 1 / 5, 7 / 10] else [1 / 5, 3 / 5, 1 / 5]) w"


section \<open>Slices and the seed\<close>

lemma py_slice_to_nonneg: "0 \<le> k \<Longrightarrow> py_slice_to xs k = take (nat k) xs"
  by (auto simp: py_slice_to_def norm_index_def min_def)

lemma input_seq_last: "2 \<le> sl \<Longrightarrow> input_seq sl xs = drop (length xs - nat (sl - 1)) xs"
proof -
  assume "2 \<le> sl"
  then have "norm_index (length xs) (- (sl - 1)) = length xs - nat (sl - 1)"
    unfolding norm_index_def by (auto; linarith)
  then show ?thesis
    by (simp only: input_seq_def py_slice_from_def)
qed

lemma input_seq_one: "input_seq 1 xs = xs"
  by (simp add: input_seq_def py_slice_from_def norm_index_def)

lemma length_input_seq:
  "2 \<le> sl \<Longrightarrow> nat (sl - 1) \<le> length xs \<Longrightarrow> length (input_seq sl xs) = nat (sl - 1)"
  by (simp add: input_seq_last)

lemma initial_tokens_long:
  assumes "1 \<le> sl" and "sl - 1 < int (length (seed_ids tok vocab seed))"
  shows "initial_tokens tok vocab seed sl = take (nat (sl - 1)) (seed_ids tok vocab seed)"
  using assms by (simp add: initial_tokens_def Let_def py_slice_to_nonneg py_repeat_def)

lemma initial_tokens_short:
  assumes "int (length (seed_ids tok vocab seed)) \<le> sl - 1"
  shows "initial_tokens tok vocab seed sl =
           seed_ids tok vocab seed @ replicate (nat (sl - 1) - length (seed_ids tok vocab seed)) 0"
proof -
  have "nat (sl - 1 - int (length (seed_ids tok vocab seed))) = nat (sl - 1) - length (seed_ids tok vocab seed)"
    by linarith
  with assms show ?thesis
    by (simp add: initial_tokens_def Let_def py_slice_to_nonneg py_repeat_def)
qed

lemma length_initial_tokens:
  assumes "1 \<le> sl"
  shows "length (initial_tokens tok vocab seed sl) = nat (sl - 1)"
proof (cases "sl - 1 < int (length (seed_ids tok vocab seed))")
  case True
  with assms show ?thesis by (simp add: initial_tokens_long)
next
  case False
  then show ?thesis by (simp add: initial_tokens_short)
qed

lemma input_seq_initial:
  assumes "1 \<le> sl"
  shows "input_seq sl (initial_tokens tok vocab seed sl) = initial_tokens tok vocab seed sl"
proof (cases "sl = 1")
  case True
  then show ?thesis by (simp add: input_seq_one)
next
  case False
  with assms have "2 \<le> sl" by simp
  then show ?thesis using assms by (simp add: input_seq_last length_initial_tokens)
qed

lemma length_seed_ids: "length (seed_ids tok vocab seed) = length (tok seed)"
  by (simp add: seed_ids_def)


section \<open>Dicts and the inverse vocabulary\<close>

lemma map_of_replace_other:
  "k'' \<noteq> k \<Longrightarrow>
   map_of (map (\<lambda>(k', v'). if k' = k then (k', v) else (k', v')) d) k'' = map_of d k''"
  by (induction d) (simp_all split: prod.splits)

lemma map_of_replace_same:
  "k \<in> fst ` set d \<Longrightarrow>
   map_of (map (\<lambda>(k', v'). if k' = k then (k', v) else (k', v')) d) k = Some v"
  by (induction d) (auto split: prod.splits)

lemma map_of_dict_set: "map_of (dict_set d k v) = (map_of d)(k \<mapsto> v)"
proof (rule ext)
  fix k''
  show "map_of (dict_set d k v) k'' = ((map_of d)(k \<mapsto> v)) k''"
  proof (cases "k \<in> fst ` set d")
    case True
    then show ?thesis
      by (cases "k'' = k") (simp_all add: dict_set_def map_of_replace_other map_of_replace_same)
  next
    case False
    then have "map_of d k = None" by (simp add: map_of_eq_None_iff)
    with False show ?thesis
      by (cases "k'' = k") (simp_all add: dict_set_def map_add_def split: option.splits)
  qed
qed

lemma keys_dict_set: "map fst (dict_set d k v) = (if k \<in> fst ` set d then map fst d else map fst d @ [k])"
proof -
  have "map fst (map (\<lambda>(k', v'). if k' = k then (k', v) else (k', v')) d) = map fst d"
    by (induction d) (auto split: prod.splits)
  then show ?thesis by (simp add: dict_set_def)
qed

lemma map_of_fold_dict_set:
  "map_of (fold (\<lambda>(k, v) d. dict_set d k v) items d0) = map_of d0 ++ map_of (rev items)"
proof (induction items arbitrary: d0)
  case Nil
  then show ?case by simp
next
  case (Cons kv items)
  obtain k v where kv: "kv = (k, v)" by (cases kv)
  have "map_of (dict_set d0 k v) ++ map_of (rev items) = map_of d0 ++ ([k \<mapsto> v] ++ map_of (rev items))"
    by (auto simp: map_of_dict_set fun_eq_iff map_add_def split: option.splits)
  then show ?case using Cons.IH [of "dict_set d0 k v"] by (simp add: kv)
qed

lemma map_of_dict_of_items: "map_of (dict_of_items items) = map_of (rev items)"
  by (simp add: dict_of_items_def map_of_fold_dict_set)

lemma inv_word_unknown:
  assumes "t \<notin> snd ` set vocab"
  shows "inv_word vocab t = ''<PAD>''"
proof -
  have "t \<notin> fst ` set (rev (map (\<lambda>(k, v). (v, k)) vocab))"
    using assms by (auto simp: image_iff)
  then have "map_of (rev (map (\<lambda>(k, v). (v, k)) vocab)) t = None"
    by (simp add: map_of_eq_None_iff)
  then show ?thesis
    by (simp add: inv_word_def inv_vocab_def dict_get_def map_of_dict_of_items PAD_def)
qed

lemma inv_word_known:
  assumes "t \<in> snd ` set vocab"
  shows "(inv_word vocab t, t) \<in> set vocab"
proof -
  have "t \<in> fst ` set (rev (map (\<lambda>(k, v). (v, k)) vocab))"
    using assms by (force simp: image_iff)
  then obtain w where w: "map_of (rev (map (\<lambda>(k, v). (v, k)) vocab)) t = Some w"
    by (metis map_of_eq_None_iff not_Some_eq)
  then have "(t, w) \<in> set (rev (map (\<lambda>(k, v). (v, k)) vocab))"
    by (rule map_of_SomeD)
  then have "(w, t) \<in> set vocab" by auto
  moreover have "inv_word vocab t = w"
    using w by (simp add: inv_word_def inv_vocab_def dict_get_def map_of_dict_of_items)
  ultimately show ?thesis by simp
qed

section \<open>The arg-max and the temperature\<close>

text \<open>
  In exact arithmetic the rescaling of line 205 and 206 is strictly increasing on
  non-negative entries when the temperature is positive, and the arg-max loop only
  compares entries.
\<close>

lemma argmax_loop_mono:
  assumes "\<And>x y. x \<in> insert bv (set xs) \<Longrightarrow> y \<in> insert bv (set xs) \<Longrightarrow> (f x < f y) = (x < y)"
  shows "argmax_loop (map f xs) i best (f bv) = argmax_loop xs i best bv"
  using assms
proof (induction xs arbitrary: i best bv)
  case Nil
  then show ?case by simp
next
  case (Cons x xs)
  have cmp: "(f bv < f x) = (bv < x)" using Cons.prems by simp
  show ?case
  proof (cases "bv < x")
    case True
    have "argmax_loop (map f xs) (Suc i) i (f x) = argmax_loop xs (Suc i) i x"
      by (rule Cons.IH) (use Cons.prems in auto)
    with True cmp show ?thesis by simp
  next
    case False
    have "argmax_loop (map f xs) (Suc i) best (f bv) = argmax_loop xs (Suc i) best bv"
      by (rule Cons.IH) (use Cons.prems in auto)
    with False cmp show ?thesis by simp
  qed
qed

lemma np_argmax_mono:
  assumes "\<And>x y. x \<in> set xs \<Longrightarrow> y \<in> set xs \<Longrightarrow> (f x < f y) = (x < y)"
  shows "np_argmax (map f xs) = np_argmax xs"
proof (cases xs)
  case Nil
  then show ?thesis by simp
next
  case (Cons x xs')
  have "argmax_loop (map f xs') 1 0 (f x) = argmax_loop xs' 1 0 x"
    by (rule argmax_loop_mono) (use assms Cons in auto)
  with Cons show ?thesis by simp
qed

lemma log_input_pos: "0 \<le> p \<Longrightarrow> 0 < log_input p"
  by (simp add: log_input_def add_nonneg_pos)

lemma rescale_entry_mono:
  assumes "0 < T" and "0 < tot" and "0 \<le> p" and "0 \<le> q"
  shows "(exp (ln (log_input p) / T) / tot < exp (ln (log_input q) / T) / tot) = (p < q)"
proof -
  have "(exp (ln (log_input p) / T) / tot < exp (ln (log_input q) / T) / tot)
        = (exp (ln (log_input p) / T) < exp (ln (log_input q) / T))"
    using \<open>0 < tot\<close> by (simp add: divide_less_cancel)
  also have "\<dots> = (ln (log_input p) / T < ln (log_input q) / T)" by simp
  also have "\<dots> = (ln (log_input p) < ln (log_input q))"
    using \<open>0 < T\<close> by (simp add: divide_less_cancel)
  also have "\<dots> = (log_input p < log_input q)"
    using log_input_pos assms(3,4) by simp
  also have "\<dots> = (p < q)" by (simp add: log_input_def)
  finally show ?thesis .
qed

lemma sum_list_exp_nonneg: "0 \<le> sum_list (map exp (row :: real list))"
  by (rule sum_list_nonneg) auto

lemma sum_list_exp_pos: "row \<noteq> [] \<Longrightarrow> 0 < sum_list (map exp (row :: real list))"
  by (cases row) (simp_all add: add_pos_nonneg sum_list_exp_nonneg)

lemma total_pos:
  assumes "rows \<noteq> []" and "last rows \<noteq> []"
  shows "0 < sum_list (map sum_list (map (map exp) (rows :: real list list)))"
proof -
  have rows: "rows = butlast rows @ [last rows]" using assms(1) by simp
  have "0 \<le> sum_list (map sum_list (map (map exp) (butlast rows)))"
    by (rule sum_list_nonneg) (auto simp: sum_list_exp_nonneg)
  moreover have "0 < sum_list (map exp (last rows))"
    using assms(2) by (rule sum_list_exp_pos)
  moreover have "sum_list (map sum_list (map (map exp) rows)) =
      sum_list (map sum_list (map (map exp) (butlast rows))) + sum_list (map exp (last rows))"
    by (subst rows) simp
  ultimately show ?thesis by linarith
qed

lemma temperature_rescale_Nil_iff: "temperature_rescale T pred = [] \<longleftrightarrow> pred = []"
  by (simp add: temperature_rescale_def Let_def)

lemma last_temperature_rescale:
  assumes "pred \<noteq> []"
  shows "last (temperature_rescale T pred) =
     map (\<lambda>p. exp (ln (log_input p) / T) /
               sum_list (map sum_list (map (map exp) (map (map (\<lambda>p. ln (log_input p) / T)) pred))))
         (last pred)"
  using assms by (simp add: temperature_rescale_def Let_def last_map o_def)

lemma last_rescale_Nil_iff:
  "pred \<noteq> [] \<Longrightarrow> last (temperature_rescale T pred) = [] \<longleftrightarrow> last pred = []"
  by (simp add: last_temperature_rescale)

lemma argmax_rescale:
  assumes nonneg: "\<And>p. p \<in> set (last pred) \<Longrightarrow> 0 \<le> p" and T: "0 < T" and ne: "pred \<noteq> []"
  shows "np_argmax (last (temperature_rescale T pred)) = np_argmax (last pred)"
proof (cases "last pred = []")
  case True
  then show ?thesis using ne by (simp add: last_temperature_rescale)
next
  case False
  define tot where
    "tot = sum_list (map sum_list (map (map exp) (map (map (\<lambda>p. ln (log_input p) / T)) pred)))"
  have "0 < tot"
    unfolding tot_def using ne False by (intro total_pos) (simp_all add: last_map)
  have "np_argmax (map (\<lambda>p. exp (ln (log_input p) / T) / tot) (last pred)) = np_argmax (last pred)"
    by (rule np_argmax_mono) (simp add: rescale_entry_mono T \<open>0 < tot\<close> nonneg)
  then show ?thesis using ne by (simp add: last_temperature_rescale tot_def)
qed

lemma next_token_raw:
  assumes "\<And>p. p \<in> set (last pred) \<Longrightarrow> 0 \<le> p" and "0 < T"
  shows "next_token T pred = (if pred = [] then Inl IndexError
      else (case np_argmax (last pred) of Inl e \<Rightarrow> Inl e | Inr i \<Rightarrow> Inr (int i)))"
  using assms by (simp add: next_token_def Let_def temperature_rescale_Nil_iff argmax_rescale)

lemma next_token_total:
  assumes "pred \<noteq> []" and "last pred \<noteq> []"
  shows "\<exists>t. next_token T pred = Inr t"
proof -
  from assms have "last (temperature_rescale T pred) \<noteq> []" by (simp add: last_rescale_Nil_iff)
  then obtain x xs where "last (temperature_rescale T pred) = x # xs"
    by (cases "last (temperature_rescale T pred)") auto
  then show ?thesis using assms(1)
    by (simp add: next_token_def Let_def temperature_rescale_Nil_iff)
qed

section \<open>The decode loop\<close>


lemma decode_loop_trace:
  assumes "decode_loop m sl T n st0 = Inr st"
  shows "length (tokens st) = length (tokens st0) + n \<and>
         take (length (tokens st0)) (tokens st) = tokens st0 \<and>
         queries st = queries st0 @
           map (\<lambda>j. input_seq sl (take (length (tokens st0) + j) (tokens st))) [0..<n]"
  using assms
proof (induction n arbitrary: st0)
  case 0
  then show ?case by simp
next
  case (Suc n)
  let ?w = "input_seq sl (tokens st0)"
  from Suc.prems obtain t where t: "next_token T (m ?w) = Inr t"
    by (cases "next_token T (m ?w)") (simp_all add: Let_def)
  let ?st1 = "\<lparr>tokens = tokens st0 @ [t], queries = queries st0 @ [?w]\<rparr>"
  from Suc.prems t have run: "decode_loop m sl T n ?st1 = Inr st" by (simp add: Let_def)
  from Suc.IH [OF run]
  have len: "length (tokens st) = Suc (length (tokens st0)) + n"
    and pre: "take (Suc (length (tokens st0))) (tokens st) = tokens st0 @ [t]"
    and qs: "queries st = (queries st0 @ [?w]) @
           map (\<lambda>j. input_seq sl (take (Suc (length (tokens st0)) + j) (tokens st))) [0..<n]"
    by simp_all
  have pre0: "take (length (tokens st0)) (tokens st) = tokens st0"
  proof -
    have "take (length (tokens st0)) (take (Suc (length (tokens st0))) (tokens st)) = tokens st0"
      by (simp only: pre) simp
    then show ?thesis by (simp add: min_def)
  qed
  have "map (\<lambda>j. input_seq sl (take (length (tokens st0) + j) (tokens st))) [0..<Suc n] =
        ?w # map (\<lambda>j. input_seq sl (take (Suc (length (tokens st0)) + j) (tokens st))) [0..<n]"
    by (simp only: upt_conv_Cons [OF zero_less_Suc] list.map map_Suc_upt [symmetric] map_map o_def)
       (simp add: pre0)
  with len pre0 qs show ?case by simp
qed

lemma first_query:
  assumes "decode_loop m sl T n \<lparr>tokens = ts, queries = []\<rparr> = Inr st" and "0 < n"
  shows "queries st ! 0 = input_seq sl ts"
proof -
  from decode_loop_trace [OF assms(1)]
  have take: "take (length ts) (tokens st) = ts"
    and qs: "queries st = map (\<lambda>j. input_seq sl (take (length ts + j) (tokens st))) [0..<n]"
    by simp_all
  from assms(2) have "queries st ! 0 = input_seq sl (take (length ts + 0) (tokens st))"
    by (simp only: qs nth_map_upt) simp
  with take show ?thesis by simp
qed

lemma example_seed: "simple_tokenize ''save money save'' = [''save'', ''money'', ''save'']"
  by (simp add: simple_tokenize_def)

lemma example_seed_ids: "seed_ids simple_tokenize example_vocab ''save money save'' = [1, 2, 1]"
  by (simp add: seed_ids_def example_seed example_vocab_def dict_get_def)

text \<open>
  Claim C1, as amended. When the seed has more than \<open>seq_length - 1\<close> tokens (and
  \<open>seq_length\<close> is at least 1), line 200 keeps the first \<open>seq_length - 1\<close> identifiers of
  the seed, \<^verbatim>\<open>tokens[:seq_length - 1]\<close>, and drops the rest: the first window given to the
  network is the leading part of the seed, not its trailing part.
\<close>

theorem initial_window_leading:
  assumes "1 \<le> seq_length" and "seq_length - 1 < int (length (tok seed_text))"
  shows "input_seq seq_length (initial_tokens tok vocab seed_text seq_length) =
           take (nat (seq_length - 1)) (seed_ids tok vocab seed_text) \<and>
         (\<forall>st. generate_state tok model vocab seed_text seq_length len temperature = Inr st \<longrightarrow>
               0 < len \<longrightarrow>
               queries st ! 0 = take (nat (seq_length - 1)) (seed_ids tok vocab seed_text))"
proof -
  have w: "input_seq seq_length (initial_tokens tok vocab seed_text seq_length) =
           take (nat (seq_length - 1)) (seed_ids tok vocab seed_text)"
    using assms
    by (simp only: input_seq_initial [OF assms(1)]) (simp add: initial_tokens_long length_seed_ids)
  have "queries st ! 0 = take (nat (seq_length - 1)) (seed_ids tok vocab seed_text)"
    if "generate_state tok model vocab seed_text seq_length len temperature = Inr st" and "0 < len"
    for st
    using first_query [of model seq_length temperature "nat len" _ st] that w
    by (simp add: generate_state_def)
  with w show ?thesis by blast
qed

text \<open>The seed "save money save" with \<open>seq_length = 3\<close>: the window is "save money".\<close>

theorem initial_window_leading_witness:
  "(1::int) \<le> 3 \<and> (3::int) - 1 < int (length (simple_tokenize ''save money save'')) \<and>
   input_seq 3 (initial_tokens simple_tokenize example_vocab ''save money save'' 3) = [1, 2]"
  using initial_window_leading [of 3 simple_tokenize "''save money save''" example_vocab]
  by (simp add: example_seed example_seed_ids)

text \<open>
  Claim C1 as stated fails: for the same seed, with identifiers \<open>[1, 2, 1]\<close>, the
  window is \<open>[1, 2]\<close>, while the last two identifiers are \<open>[2, 1]\<close>.
\<close>

theorem initial_window_trailing_counterexample:
  "(3::int) - 1 < int (length (simple_tokenize ''save money save'')) \<and>
   seed_ids simple_tokenize example_vocab ''save money save'' = [1, 2, 1] \<and>
   input_seq 3 (initial_tokens simple_tokenize example_vocab ''save money save'' 3) = [1, 2] \<and>
   input_seq 3 (initial_tokens simple_tokenize example_vocab ''save money save'' 3) \<noteq>
     drop (length (seed_ids simple_tokenize example_vocab ''save money save'') - nat (3 - 1))
          (seed_ids simple_tokenize example_vocab ''save money save'')"
  by (simp add: example_seed example_seed_ids initial_tokens_def input_seq_def py_slice_to_def
        py_slice_from_def py_repeat_def norm_index_def)

lemma decode_loop_returns:
  assumes shape: "\<And>w. seq_length = 1 \<or> length w = nat (seq_length - 1) \<Longrightarrow>
                      model w \<noteq> [] \<and> last (model w) \<noteq> []"
    and sl: "1 \<le> seq_length"
    and len: "nat (seq_length - 1) \<le> length (tokens st)"
  shows "\<exists>st'. decode_loop model seq_length T n st = Inr st'"
  using len
proof (induction n arbitrary: st)
  case 0
  then show ?case by simp
next
  case (Suc n)
  let ?w = "input_seq seq_length (tokens st)"
  have "seq_length = 1 \<or> length ?w = nat (seq_length - 1)"
  proof (cases "seq_length = 1")
    case False
    with sl have "2 \<le> seq_length" by simp
    then show ?thesis using Suc.prems by (simp add: length_input_seq)
  qed simp
  then have "model ?w \<noteq> [] \<and> last (model ?w) \<noteq> []" by (rule shape)
  then obtain t where t: "next_token T (model ?w) = Inr t"
    using next_token_total by blast
  have "\<exists>st'. decode_loop model seq_length T n
                \<lparr>tokens = tokens st @ [t], queries = queries st @ [?w]\<rparr> = Inr st'"
    by (rule Suc.IH) (use Suc.prems in simp)
  with t show ?case by (simp add: Let_def)
qed

lemma generate_state_returns:
  assumes "\<And>w. seq_length = 1 \<or> length w = nat (seq_length - 1) \<Longrightarrow>
                      model w \<noteq> [] \<and> last (model w) \<noteq> []"
    and "1 \<le> seq_length"
  shows "\<exists>st. generate_state tok model vocab seed_text seq_length len T = Inr st"
proof -
  have "nat (seq_length - 1) \<le>
        length (tokens \<lparr>tokens = initial_tokens tok vocab seed_text seq_length, queries = []\<rparr>)"
    using length_initial_tokens [OF assms(2), of tok vocab seed_text] by simp
  from decode_loop_returns [OF assms this] show ?thesis
    by (simp only: generate_state_def)
qed

text \<open>
  Claim C5. When the seed has fewer than \<open>seq_length - 1\<close> tokens, the first window is
  the identifiers of the seed followed by zeros, \<open>seq_length - 1\<close> identifiers in all; a
  seed without tokens gives a window of zeros only; and the loop runs on it like on any
  other window: with a network that answers every window of that length with a
  non-empty last row, the function returns, and its first question was this window.
\<close>

theorem initial_window_padded:
  assumes "int (length (tok seed_text)) < seq_length - 1"
  shows "input_seq seq_length (initial_tokens tok vocab seed_text seq_length) =
           seed_ids tok vocab seed_text @
           replicate (nat (seq_length - 1) - length (tok seed_text)) 0 \<and>
         length (input_seq seq_length (initial_tokens tok vocab seed_text seq_length)) =
           nat (seq_length - 1) \<and>
         (tok seed_text = [] \<longrightarrow>
            input_seq seq_length (initial_tokens tok vocab seed_text seq_length) =
              replicate (nat (seq_length - 1)) 0) \<and>
         ((\<forall>w. length w = nat (seq_length - 1) \<longrightarrow> model w \<noteq> [] \<and> last (model w) \<noteq> []) \<longrightarrow>
            (\<exists>st. generate_state tok model vocab seed_text seq_length len temperature = Inr st \<and>
                  (0 < len \<longrightarrow>
                     queries st ! 0 =
                       seed_ids tok vocab seed_text @
                       replicate (nat (seq_length - 1) - length (tok seed_text)) 0)))"
proof -
  from assms have sl: "1 \<le> seq_length" by linarith
  let ?w = "input_seq seq_length (initial_tokens tok vocab seed_text seq_length)"
  let ?p = "seed_ids tok vocab seed_text @
            replicate (nat (seq_length - 1) - length (tok seed_text)) 0"
  have init: "initial_tokens tok vocab seed_text seq_length = ?p"
    using assms by (simp add: initial_tokens_short length_seed_ids)
  have w: "?w = ?p" unfolding input_seq_initial [OF sl] by (rule init)
  have l: "length ?w = nat (seq_length - 1)"
    by (simp only: input_seq_initial [OF sl] length_initial_tokens [OF sl])
  have e: "?w = replicate (nat (seq_length - 1)) 0" if "tok seed_text = []"
    using that w by (simp add: seed_ids_def)
  have r: "\<exists>st. generate_state tok model vocab seed_text seq_length len temperature = Inr st \<and>
             (0 < len \<longrightarrow> queries st ! 0 = ?p)"
    if shape: "\<forall>w. length w = nat (seq_length - 1) \<longrightarrow> model w \<noteq> [] \<and> last (model w) \<noteq> []"
  proof -
    from assms have "seq_length \<noteq> 1" by linarith
    with shape have sh: "\<And>w. seq_length = 1 \<or> length w = nat (seq_length - 1) \<Longrightarrow>
                      model w \<noteq> [] \<and> last (model w) \<noteq> []" by blast
    have "\<exists>st. generate_state tok model vocab seed_text seq_length len temperature = Inr st"
      by (rule generate_state_returns) (use sh sl in blast)+
    then obtain st
      where st: "generate_state tok model vocab seed_text seq_length len temperature = Inr st"
      by blast
    have "queries st ! 0 = ?p" if "0 < len"
      using first_query [of model seq_length temperature "nat len" _ st] st that w
      by (simp add: generate_state_def)
    with st show ?thesis by blast
  qed
  from w l e r show ?thesis by blast
qed

lemma example_model_shape:
  "length w = nat (4 - 1) \<Longrightarrow> example_model w \<noteq> [] \<and> last (example_model w) \<noteq> []"
  by (cases w) (auto simp: example_model_def last_map)

lemma example_short_seed: "simple_tokenize ''save money'' = [''save'', ''money'']"
  by (simp add: simple_tokenize_def)

text \<open>The seed "save money" with \<open>seq_length = 4\<close>: the window is \<open>[1, 2, 0]\<close>.\<close>

theorem initial_window_padded_witness:
  "int (length (simple_tokenize ''save money'')) < 4 - 1 \<and>
   input_seq 4 (initial_tokens simple_tokenize example_vocab ''save money'' 4) = [1, 2, 0] \<and>
   (\<exists>st. generate_state simple_tokenize example_model example_vocab ''save money'' 4 2 (7 / 10)
           = Inr st \<and> queries st ! 0 = [1, 2, 0])"
proof -
  have h: "int (length (simple_tokenize ''save money'')) < 4 - 1"
    by (simp add: example_short_seed)
  have ids: "seed_ids simple_tokenize example_vocab ''save money'' = [1, 2]"
    by (simp add: seed_ids_def example_short_seed example_vocab_def dict_get_def)
  from initial_window_padded
         [of simple_tokenize "''save money''" 4 example_vocab example_model 2 "7 / 10"]
       h example_model_shape
  show ?thesis by (simp add: ids example_short_seed)
qed

text \<open>
  Claim C6. The inverse lookup of line 209, \<^verbatim>\<open>inv_vocab.get(t, '<PAD>')\<close>, has no failing
  branch: whenever the loop returns a state, generate_text returns the space-joined
  words, one for every identifier of the state; an identifier the vocabulary holds
  gives a word the vocabulary maps to it, and every other identifier gives the text
  \<^verbatim>\<open><PAD>\<close>.
\<close>

theorem inverse_vocabulary_total:
  assumes "generate_state tok model vocab seed_text seq_length len temperature = Inr st"
  shows "\<exists>ws. generate_text tok model vocab seed_text seq_length len temperature
                 = Inr (join_space ws) \<and>
              length ws = length (tokens st) \<and>
              (\<forall>i<length ws.
                 (tokens st ! i \<in> snd ` set vocab \<longrightarrow> (ws ! i, tokens st ! i) \<in> set vocab) \<and>
                 (tokens st ! i \<notin> snd ` set vocab \<longrightarrow> ws ! i = ''<PAD>''))"
proof (intro exI conjI allI impI)
  show "generate_text tok model vocab seed_text seq_length len temperature
          = Inr (join_space (map (inv_word vocab) (tokens st)))"
    using assms by (simp add: generate_text_def)
  show "length (map (inv_word vocab) (tokens st)) = length (tokens st)" by simp
next
  fix i
  assume i: "i < length (map (inv_word vocab) (tokens st))"
  { assume "tokens st ! i \<in> snd ` set vocab"
    then show "(map (inv_word vocab) (tokens st) ! i, tokens st ! i) \<in> set vocab"
      using i by (simp add: inv_word_known) }
  { assume "tokens st ! i \<notin> snd ` set vocab"
    then show "map (inv_word vocab) (tokens st) ! i = ''<PAD>''"
      using i by (simp add: inv_word_unknown) }
qed

text \<open>
  Claim C7. When every entry of the network's output is at least 0, every argument of
  the logarithm of line 205 is at least \<open>1e-10\<close>, hence positive: the logarithm is
  defined there (the exponential inverts it).
\<close>

theorem log_argument_positive:
  assumes "\<forall>row\<in>set pred. \<forall>p\<in>set row. 0 \<le> p"
  shows "\<forall>row\<in>set pred. \<forall>p\<in>set row. 1 / 10 ^ 10 \<le> log_input p \<and> 0 < log_input p \<and>
           exp (ln (log_input p)) = log_input p"
proof (intro ballI)
  fix row p
  assume "row \<in> set pred" and "p \<in> set row"
  with assms have "0 \<le> p" by blast
  then have "0 < log_input p" by (rule log_input_pos)
  moreover from \<open>0 \<le> p\<close> have "1 / 10 ^ 10 \<le> log_input p" by (simp add: log_input_def)
  ultimately show "1 / 10 ^ 10 \<le> log_input p \<and> 0 < log_input p \<and>
           exp (ln (log_input p)) = log_input p" by simp
qed

text \<open>An entry of exactly 0.\<close>

theorem log_argument_positive_witness:
  "1 / 10 ^ 10 \<le> log_input 0 \<and> 0 < log_input 0 \<and> exp (ln (log_input 0)) = log_input 0"
  using log_argument_positive [of "[[0, 1]]"] by simp

lemma next_token_eval:
  assumes "0 < T" and "\<forall>p\<in>set (last pred). 0 \<le> p"
  shows "next_token T pred = (if pred = [] then Inl IndexError
      else (case np_argmax (last pred) of Inl e \<Rightarrow> Inl e | Inr i \<Rightarrow> Inr (int i)))"
  by (rule next_token_raw) (use assms in auto)

lemma argmax_loop_spec:
  assumes "length pre = i" and "best < i" and "pre ! best = bv"
    and "\<forall>j<i. pre ! j \<le> bv" and "\<forall>j<best. pre ! j < bv"
  shows "argmax_loop xs i best bv < length (pre @ xs) \<and>
         (\<forall>j<length (pre @ xs). (pre @ xs) ! j \<le> (pre @ xs) ! argmax_loop xs i best bv) \<and>
         (\<forall>j<argmax_loop xs i best bv. (pre @ xs) ! j < (pre @ xs) ! argmax_loop xs i best bv)"
  using assms
proof (induction xs arbitrary: pre i best bv)
  case Nil
  then show ?case by simp
next
  case (Cons x xs)
  show ?case
  proof (cases "bv < x")
    case True
    have "argmax_loop xs (Suc i) i x < length ((pre @ [x]) @ xs) \<and>
         (\<forall>j<length ((pre @ [x]) @ xs). ((pre @ [x]) @ xs) ! j \<le> ((pre @ [x]) @ xs) ! argmax_loop xs (Suc i) i x) \<and>
         (\<forall>j<argmax_loop xs (Suc i) i x. ((pre @ [x]) @ xs) ! j < ((pre @ [x]) @ xs) ! argmax_loop xs (Suc i) i x)"
    proof (rule Cons.IH)
      show "length (pre @ [x]) = Suc i" using Cons.prems(1) by simp
      show "i < Suc i" by simp
      show "(pre @ [x]) ! i = x" using Cons.prems(1) by (simp add: nth_append)
      show "\<forall>j<Suc i. (pre @ [x]) ! j \<le> x"
        using Cons.prems(1,4) True by (auto simp: nth_append less_Suc_eq intro: order.trans less_imp_le)
      show "\<forall>j<i. (pre @ [x]) ! j < x"
        using Cons.prems(1,4) True by (auto simp: nth_append intro: le_less_trans)
    qed
    with True show ?thesis by simp
  next
    case False
    have "argmax_loop xs (Suc i) best bv < length ((pre @ [x]) @ xs) \<and>
         (\<forall>j<length ((pre @ [x]) @ xs). ((pre @ [x]) @ xs) ! j \<le> ((pre @ [x]) @ xs) ! argmax_loop xs (Suc i) best bv) \<and>
         (\<forall>j<argmax_loop xs (Suc i) best bv. ((pre @ [x]) @ xs) ! j < ((pre @ [x]) @ xs) ! argmax_loop xs (Suc i) best bv)"
    proof (rule Cons.IH)
      show "length (pre @ [x]) = Suc i" using Cons.prems(1) by simp
      show "best < Suc i" using Cons.prems(2) by simp
      show "(pre @ [x]) ! best = bv" using Cons.prems(1,2,3) by (simp add: nth_append)
      show "\<forall>j<Suc i. (pre @ [x]) ! j \<le> bv"
        using Cons.prems(1,4) False by (auto simp: nth_append less_Suc_eq)
      show "\<forall>j<best. (pre @ [x]) ! j < bv"
        using Cons.prems(1,2,5) by (auto simp: nth_append)
    qed
    with False show ?thesis by simp
  qed
qed

lemma np_argmax_first_max:
  assumes "np_argmax xs = Inr i"
  shows "i < length xs \<and> (\<forall>j<length xs. xs ! j \<le> xs ! i) \<and> (\<forall>j<i. xs ! j < xs ! i)"
proof (cases xs)
  case Nil
  with assms show ?thesis by simp
next
  case (Cons x xs')
  with assms have i: "i = argmax_loop xs' 1 0 x" by simp
  have "argmax_loop xs' 1 0 x < length ([x] @ xs') \<and>
         (\<forall>j<length ([x] @ xs'). ([x] @ xs') ! j \<le> ([x] @ xs') ! argmax_loop xs' 1 0 x) \<and>
         (\<forall>j<argmax_loop xs' 1 0 x. ([x] @ xs') ! j < ([x] @ xs') ! argmax_loop xs' 1 0 x)"
    by (rule argmax_loop_spec) simp_all
  with i Cons show ?thesis by simp
qed

lemma example_run:
  "generate_state simple_tokenize example_model vocab ''save money'' 4 2 (7 / 10) =
     Inr \<lparr>tokens = [dict_get vocab ''save'' 0, dict_get vocab ''money'' 0, 0, 1, 2],
          queries = [[dict_get vocab ''save'' 0, dict_get vocab ''money'' 0, 0],
                     [dict_get vocab ''money'' 0, 0, 1]]\<rparr>"
  by (simp add: generate_state_def initial_tokens_def seed_ids_def example_short_seed
        py_slice_to_def py_repeat_def norm_index_def input_seq_def py_slice_from_def
        example_model_def next_token_eval numeral_2_eq_2 Let_def)

lemma split_whitespace_word:
  "\<forall>c\<in>set w. \<not> is_space c \<Longrightarrow>
   split_whitespace acc (w @ rest) = split_whitespace (acc @ w) rest"
proof (induction w arbitrary: acc)
  case Nil
  then show ?case by simp
next
  case (Cons c w)
  then have "\<not> is_space c" and "\<forall>c\<in>set w. \<not> is_space c" by auto
  then show ?case using Cons.IH [of "acc @ [c]"] by simp
qed

lemma is_space_blank: "is_space CHR '' ''"
  by (simp add: is_space_def)

lemma py_split_join:
  assumes "\<forall>w\<in>set ws. w \<noteq> [] \<and> (\<forall>c\<in>set w. \<not> is_space c)"
  shows "py_split (join_space ws) = ws"
  unfolding py_split_def using assms
proof (induction ws rule: join_space.induct)
  case 1
  then show ?case by simp
next
  case (2 w)
  then have "split_whitespace [] (w @ []) = split_whitespace ([] @ w) []"
    by (intro split_whitespace_word) simp
  with 2 show ?case by simp
next
  case (3 w v ws)
  have "split_whitespace [] (w @ (CHR '' '' # join_space (v # ws))) =
        split_whitespace ([] @ w) (CHR '' '' # join_space (v # ws))"
    by (rule split_whitespace_word) (use 3 in simp)
  also have "\<dots> = w # split_whitespace [] (join_space (v # ws))"
    using 3 by (simp add: is_space_blank)
  also have "\<dots> = w # v # ws" using 3 by simp
  finally show ?case by simp
qed

lemma inv_word_cases: "inv_word vocab t \<in> fst ` set vocab \<or> inv_word vocab t = ''<PAD>''"
proof (cases "t \<in> snd ` set vocab")
  case True
  then have "(inv_word vocab t, t) \<in> set vocab" by (rule inv_word_known)
  then show ?thesis by force
next
  case False
  then show ?thesis by (simp add: inv_word_unknown)
qed

lemma words_plain:
  assumes "\<forall>(w, i)\<in>set vocab. w \<noteq> [] \<and> (\<forall>c\<in>set w. \<not> is_space c \<and> of_char c < (128::nat))"
  shows "\<forall>w\<in>set (map (inv_word vocab) ts). w \<noteq> [] \<and> (\<forall>c\<in>set w. \<not> is_space c)"
proof
  fix w
  assume "w \<in> set (map (inv_word vocab) ts)"
  then obtain t where w: "w = inv_word vocab t" by auto
  from inv_word_cases [of vocab t] show "w \<noteq> [] \<and> (\<forall>c\<in>set w. \<not> is_space c)"
  proof
    assume "inv_word vocab t \<in> fst ` set vocab"
    with assms w show ?thesis by force
  next
    assume "inv_word vocab t = ''<PAD>''"
    with w show ?thesis by (simp add: is_space_def)
  qed
qed

text \<open>
  Claim C3. For \<open>seq_length\<close> at least 1, \<open>len\<close> at least 0 and a network that answers
  every window it can be asked about with a non-empty last row, generate_text returns:
  the loop asks the network exactly \<open>len\<close> times, the state then holds
  \<open>(seq_length - 1) + len\<close> identifiers, and the result is the space-join of that many
  words. When every word of the vocabulary is a non-empty ASCII word without
  white space, splitting the returned text as line 226 does gives
  \<open>(seq_length - 1) + len\<close> tokens again.
\<close>

theorem generate_text_length:
  assumes "\<And>w. seq_length = 1 \<or> length w = nat (seq_length - 1) \<Longrightarrow>
                model w \<noteq> [] \<and> last (model w) \<noteq> []"
    and "1 \<le> seq_length" and "0 \<le> len"
  shows "\<exists>st out. generate_state tok model vocab seed_text seq_length len temperature = Inr st \<and>
              int (length (queries st)) = len \<and>
              int (length (tokens st)) = (seq_length - 1) + len \<and>
              generate_text tok model vocab seed_text seq_length len temperature = Inr out \<and>
              out = join_space (map (inv_word vocab) (tokens st)) \<and>
              int (length (map (inv_word vocab) (tokens st))) = (seq_length - 1) + len \<and>
              ((\<forall>(w, i)\<in>set vocab.
                   w \<noteq> [] \<and> (\<forall>c\<in>set w. \<not> is_space c \<and> of_char c < (128::nat))) \<longrightarrow>
                 int (length (py_split out)) = (seq_length - 1) + len)"
proof -
  have "\<exists>st. generate_state tok model vocab seed_text seq_length len temperature = Inr st"
    by (rule generate_state_returns) (use assms in blast)+
  then obtain st
    where st: "generate_state tok model vocab seed_text seq_length len temperature = Inr st"
    by blast
  then have run: "decode_loop model seq_length temperature (nat len)
       \<lparr>tokens = initial_tokens tok vocab seed_text seq_length, queries = []\<rparr> = Inr st"
    by (simp only: generate_state_def)
  let ?words = "map (inv_word vocab) (tokens st)"
  from decode_loop_trace [OF run]
  have "length (tokens st) = length (initial_tokens tok vocab seed_text seq_length) + nat len"
    and "length (queries st) = nat len"
    by simp_all
  with assms(2,3) have t: "int (length (tokens st)) = (seq_length - 1) + len"
    and q: "int (length (queries st)) = len"
    by (simp_all add: length_initial_tokens)
  have out: "generate_text tok model vocab seed_text seq_length len temperature =
                Inr (join_space ?words)"
    using st by (simp add: generate_text_def)
  have "int (length (py_split (join_space ?words))) = (seq_length - 1) + len"
    if "\<forall>(w, i)\<in>set vocab.
          w \<noteq> [] \<and> (\<forall>c\<in>set w. \<not> is_space c \<and> of_char c < (128::nat))"
    using py_split_join [OF words_plain [OF that, of "tokens st"]] t by simp
  with st t q out show ?thesis by simp
qed

lemma example_text:
  "generate_text simple_tokenize example_model example_vocab ''save money'' 4 2 (7 / 10) =
     Inr ''save money <PAD> save money''"
  by (simp add: generate_text_def example_run example_vocab_def dict_get_def inv_word_def
        inv_vocab_def dict_of_items_def dict_set_def PAD_def)

text \<open>
  The example of the specification: seed "save money", \<open>seq_length = 4\<close>, two steps.
\<close>

theorem generate_text_length_witness:
  "\<exists>st out. generate_state simple_tokenize example_model example_vocab ''save money'' 4 2 (7 / 10)
           = Inr st \<and>
        length (queries st) = 2 \<and> length (tokens st) = 5 \<and>
        generate_text simple_tokenize example_model example_vocab ''save money'' 4 2 (7 / 10) =
          Inr out \<and>
        out = ''save money <PAD> save money'' \<and> length (py_split out) = 5"
proof -
  have shape: "\<And>w. (4::int) = 1 \<or> length w = nat (4 - 1) \<Longrightarrow>
                  example_model w \<noteq> [] \<and> last (example_model w) \<noteq> []"
    using example_model_shape by simp
  have plain: "\<forall>(w, i)\<in>set example_vocab.
                 w \<noteq> [] \<and> (\<forall>c\<in>set w. \<not> is_space c \<and> of_char c < (128::nat))"
    by (simp add: example_vocab_def is_space_def)
  have "\<exists>st out. generate_state simple_tokenize example_model example_vocab ''save money'' 4 2
                   (7 / 10) = Inr st \<and>
        int (length (queries st)) = 2 \<and>
        int (length (tokens st)) = (4 - 1) + 2 \<and>
        generate_text simple_tokenize example_model example_vocab ''save money'' 4 2 (7 / 10) =
          Inr out \<and>
        out = join_space (map (inv_word example_vocab) (tokens st)) \<and>
        int (length (map (inv_word example_vocab) (tokens st))) = (4 - 1) + 2 \<and>
        ((\<forall>(w, i)\<in>set example_vocab.
             w \<noteq> [] \<and> (\<forall>c\<in>set w. \<not> is_space c \<and> of_char c < (128::nat))) \<longrightarrow>
           int (length (py_split out)) = (4 - 1) + 2)"
    by (rule generate_text_length) (use shape in simp_all)
  then show ?thesis using example_text plain by auto
qed




text \<open>
  With the vocabulary \<^verbatim>\<open>{"save": 1, "money": 2}\<close> the padding identifier 0 of the state
  \<open>[1, 2, 0, 1, 2]\<close> is unknown and reads \<^verbatim>\<open><PAD>\<close>.
\<close>

theorem inverse_vocabulary_total_witness:
  "\<exists>ws. generate_text simple_tokenize example_model [(''save'', 1), (''money'', 2)]
           ''save money'' 4 2 (7 / 10) = Inr (join_space ws) \<and>
        length ws = 5 \<and> (ws ! 1, 2) \<in> set [(''save'', 1), (''money'', 2)] \<and> ws ! 2 = ''<PAD>''"
proof -
  have run: "generate_state simple_tokenize example_model [(''save'', 1), (''money'', 2)]
               ''save money'' 4 2 (7 / 10) =
             Inr \<lparr>tokens = [1, 2, 0, 1, 2], queries = [[1, 2, 0], [2, 0, 1]]\<rparr>"
    using example_run [of "[(''save'', 1), (''money'', 2)]"] by (simp add: dict_get_def)
  from inverse_vocabulary_total [OF run] obtain ws
    where out: "generate_text simple_tokenize example_model [(''save'', 1), (''money'', 2)]
                   ''save money'' 4 2 (7 / 10) = Inr (join_space ws)"
      and len: "length ws = 5"
      and each: "\<forall>i<length ws.
           ([1, 2, 0, 1, 2 :: int] ! i \<in> snd ` set [(''save'', 1), (''money'', 2)] \<longrightarrow>
              (ws ! i, [1, 2, 0, 1, 2 :: int] ! i) \<in> set [(''save'', 1), (''money'', 2)]) \<and>
           ([1, 2, 0, 1, 2 :: int] ! i \<notin> snd ` set [(''save'', 1), (''money'', 2)] \<longrightarrow>
              ws ! i = ''<PAD>'')"
    by fastforce
  from each len have "(ws ! 1, 2) \<in> set [(''save'', 1), (''money'', 2)]"
    by (drule_tac x = 1 in spec) simp
  moreover from each len have "ws ! 2 = ''<PAD>''"
    by (drule_tac x = 2 in spec) simp
  ultimately show ?thesis using out len by blast
qed

section \<open>The vocabulary of preprocess_text\<close>

lemma distinct_keys_dict_set: "distinct (map fst d) \<Longrightarrow> distinct (map fst (dict_set d k v))"
  by (simp add: keys_dict_set)

lemma set_dict_set: "set (dict_set d k v) \<subseteq> insert (k, v) (set d)"
  by (auto simp: dict_set_def split: if_splits)

lemma dict_set_member: "(k, v) \<in> set (dict_set d k v)"
proof -
  have "map_of (dict_set d k v) k = Some v" by (simp add: map_of_dict_set)
  then show ?thesis by (rule map_of_SomeD)
qed

lemma length_dict_set: "length (dict_set d k v) \<le> Suc (length d)"
  by (simp add: dict_set_def)

lemma replace_absent:
  "k \<notin> fst ` set d \<Longrightarrow> map (\<lambda>(k', v'). if k' = k then (k', v) else (k', v')) d = d"
  by (induction d) auto

lemma distinct_values_replace:
  assumes "distinct (map fst d)" and "distinct (map snd d)" and "v \<notin> snd ` set d"
  shows "distinct (map snd (map (\<lambda>(k', v'). if k' = k then (k', v) else (k', v')) d))"
  using assms
proof (induction d)
  case Nil
  then show ?case by simp
next
  case (Cons kv d)
  obtain k' v' where kv: "kv = (k', v')" by (cases kv)
  let ?r = "map (\<lambda>(k', v'). if k' = k then (k', v) else (k', v')) d"
  have sub: "snd ` set ?r \<subseteq> insert v (snd ` set d)" by (auto split: if_splits)
  have IH: "distinct (map snd ?r)" using Cons by simp
  show ?case
  proof (cases "k' = k")
    case True
    with Cons.prems(1) kv have "k \<notin> fst ` set d" by simp
    then have "?r = d" by (rule replace_absent)
    with True kv Cons.prems show ?thesis by simp
  next
    case False
    from Cons.prems kv have "v' \<notin> snd ` set d" and "v' \<noteq> v" by auto
    with sub have "v' \<notin> snd ` set ?r" by blast
    with False kv IH show ?thesis by (simp add: image_image)
  qed
qed

lemma distinct_values_dict_set:
  assumes "distinct (map fst d)" and "distinct (map snd d)" and "v \<notin> snd ` set d"
  shows "distinct (map snd (dict_set d k v))"
  using assms by (auto simp: dict_set_def distinct_values_replace simp del: map_map)

lemma fold_dict_set_distinct:
  assumes "distinct (map fst items)" and "fst ` set items \<inter> fst ` set d0 = {}"
  shows "fold (\<lambda>(k, v) d. dict_set d k v) items d0 = d0 @ items"
  using assms
proof (induction items arbitrary: d0)
  case Nil
  then show ?case by simp
next
  case (Cons kv items)
  obtain k v where kv: "kv = (k, v)" by (cases kv)
  from Cons.prems kv have "k \<notin> fst ` set d0" by auto
  then have step: "dict_set d0 k v = d0 @ [(k, v)]" by (simp add: dict_set_def)
  have "fold (\<lambda>(k, v) d. dict_set d k v) items (d0 @ [(k, v)]) = (d0 @ [(k, v)]) @ items"
    by (rule Cons.IH) (use Cons.prems kv in auto)
  with step kv show ?case by simp
qed

lemma dict_of_items_distinct: "distinct (map fst items) \<Longrightarrow> dict_of_items items = items"
  by (simp add: dict_of_items_def fold_dict_set_distinct)

lemma distinct_keys_fold:
  "distinct (map fst d0) \<Longrightarrow>
   distinct (map fst (fold (\<lambda>x c. dict_set c x (dict_get c x 0 + 1)) xs d0))"
  by (induction xs arbitrary: d0) (simp_all add: distinct_keys_dict_set)

lemma distinct_keys_Counter: "distinct (map fst (Counter xs))"
  by (simp add: Counter_def distinct_keys_fold)

lemma distinct_most_common_words: "distinct (most_common_words all_tokens vocab_size)"
proof -
  let ?c = "Counter all_tokens"
  have "mset (map fst (sort_key (\<lambda>kv. - snd kv) ?c)) = mset (map fst ?c)" by simp
  then have "distinct (map fst (sort_key (\<lambda>kv. - snd kv) ?c))"
    using distinct_keys_Counter [of all_tokens] by (metis mset_eq_imp_distinct_iff)
  then have "distinct (take (nat (vocab_size - 1)) (map fst (sort_key (\<lambda>kv. - snd kv) ?c)))"
    by (rule distinct_take)
  then show ?thesis by (simp add: most_common_words_def most_common_def take_map)
qed

lemma length_most_common_words:
  "length (most_common_words all_tokens vocab_size) \<le> nat (vocab_size - 1)"
  by (simp add: most_common_words_def most_common_def)

lemma vocab_items_keys:
  "map fst (map (\<lambda>(idx, word). (word, idx + 1)) (enumerate_from0 ws)) = ws"
proof -
  have "map fst (map (\<lambda>(idx, word). (word, idx + 1)) (enumerate_from0 ws)) =
        map snd (zip (map int [0..<length ws]) ws)"
    by (simp add: enumerate_from0_def comp_def case_prod_beta)
  then show ?thesis by simp
qed

lemma map_fst_plus_zip:
  "length xs = length ys \<Longrightarrow> map (\<lambda>x. fst x + 1) (zip xs ys) = map (\<lambda>x. x + (1::int)) xs"
  by (induction xs ys rule: list_induct2) simp_all

lemma vocab_items_values:
  "map snd (map (\<lambda>(idx, word). (word, idx + 1)) (enumerate_from0 ws)) =
     map (\<lambda>j. int j + 1) [0..<length (ws :: string list)]"
proof -
  have "map snd (map (\<lambda>(idx, word). (word, idx + 1)) (enumerate_from0 ws)) =
        map (\<lambda>x. fst x + 1) (zip (map int [0..<length ws]) ws)"
    by (simp add: enumerate_from0_def comp_def case_prod_beta)
  also have "\<dots> = map (\<lambda>x. x + 1) (map int [0..<length ws])"
    by (rule map_fst_plus_zip) simp
  also have "\<dots> = map (\<lambda>j. int j + 1) [0..<length ws]"
    by (simp add: comp_def)
  finally show ?thesis .
qed

lemma build_vocab_properties:
  assumes "1 \<le> vocab_size"
  shows "distinct (map fst (build_vocab all_tokens vocab_size))"
    and "distinct (map snd (build_vocab all_tokens vocab_size))"
    and "int (length (build_vocab all_tokens vocab_size)) \<le> vocab_size"
    and "\<forall>(w, i)\<in>set (build_vocab all_tokens vocab_size). 0 \<le> i \<and> i < vocab_size"
    and "(''<PAD>'', 0) \<in> set (build_vocab all_tokens vocab_size)"
    and "\<forall>w. (w, 0) \<in> set (build_vocab all_tokens vocab_size) \<longrightarrow> w = ''<PAD>''"
proof -
  let ?ws = "most_common_words all_tokens vocab_size"
  let ?items = "map (\<lambda>(idx, word). (word, idx + 1)) (enumerate_from0 ?ws)"
  have keys: "map fst ?items = ?ws" by (rule vocab_items_keys)
  have vals: "map snd ?items = map (\<lambda>j. int j + 1) [0..<length ?ws]" by (rule vocab_items_values)
  have dk: "distinct (map fst ?items)" by (simp only: keys distinct_most_common_words)
  have dv: "distinct (map snd ?items)"
    by (simp only: vals) (simp add: distinct_map inj_on_def)
  have n: "length ?ws \<le> nat (vocab_size - 1)" by (rule length_most_common_words)
  have range: "1 \<le> v \<and> v < vocab_size" if "v \<in> snd ` set ?items" for v
  proof -
    from that have "v \<in> set (map snd ?items)" by (simp only: set_map)
    then have "v \<in> set (map (\<lambda>j. int j + 1) [0..<length ?ws])" by (simp only: vals)
    then obtain j where "j < length ?ws" and "v = int j + 1" by auto
    with n show ?thesis by linarith
  qed
  then have zero: "0 \<notin> snd ` set ?items" by force
  have bv: "build_vocab all_tokens vocab_size = dict_set ?items PAD 0"
    by (simp only: build_vocab_def dict_of_items_distinct [OF dk])
  have sub: "set (build_vocab all_tokens vocab_size) \<subseteq> insert (PAD, 0) (set ?items)"
    by (simp only: bv set_dict_set)
  show "distinct (map fst (build_vocab all_tokens vocab_size))"
    by (simp only: bv distinct_keys_dict_set [OF dk])
  show "distinct (map snd (build_vocab all_tokens vocab_size))"
    by (simp only: bv distinct_values_dict_set [OF dk dv zero])
  have "length (build_vocab all_tokens vocab_size) \<le> Suc (length ?items)"
    by (simp only: bv length_dict_set)
  with n assms show "int (length (build_vocab all_tokens vocab_size)) \<le> vocab_size"
    by (simp add: enumerate_from0_def)
  show "\<forall>(w, i)\<in>set (build_vocab all_tokens vocab_size). 0 \<le> i \<and> i < vocab_size"
  proof (clarify)
    fix w i
    assume "(w, i) \<in> set (build_vocab all_tokens vocab_size)"
    with sub have "(w, i) = (PAD, 0) \<or> (w, i) \<in> set ?items" by blast
    then show "0 \<le> i \<and> i < vocab_size"
    proof
      assume "(w, i) = (PAD, 0)"
      with assms show ?thesis by simp
    next
      assume "(w, i) \<in> set ?items"
      then have "i \<in> snd ` set ?items" by force
      from range [OF this] show ?thesis by simp
    qed
  qed
  show "(''<PAD>'', 0) \<in> set (build_vocab all_tokens vocab_size)"
    using dict_set_member [of PAD 0 ?items] by (simp only: bv) (simp add: PAD_def)
  show "\<forall>w. (w, 0) \<in> set (build_vocab all_tokens vocab_size) \<longrightarrow> w = ''<PAD>''"
  proof (intro allI impI)
    fix w
    assume "(w, 0) \<in> set (build_vocab all_tokens vocab_size)"
    with sub have "(w, 0) = (PAD, 0) \<or> (w, 0) \<in> set ?items" by blast
    moreover have "(w, 0) \<notin> set ?items" using zero by force
    ultimately show "w = ''<PAD>''" by (simp add: PAD_def)
  qed
qed

lemma preprocess_text_vocab:
  assumes "seq_length \<noteq> 0"
  shows "\<exists>seqs. preprocess_text tok texts vocab_size seq_length max_sequences =
           Inr (seqs, build_vocab (concat (map tok texts)) vocab_size)"
  using assms by (simp add: preprocess_text_def Let_def)

lemma bijection_round_trip:
  assumes "distinct (map fst vocab)" and "distinct (map snd vocab)" and "(w, i) \<in> set vocab"
  shows "dict_get vocab w 0 = i \<and> inv_word vocab i = w"
proof -
  from assms(1,3) have "map_of vocab w = Some i" by simp
  then have a: "dict_get vocab w 0 = i" by (simp add: dict_get_def)
  from assms(3) have "i \<in> snd ` set vocab" by force
  then have "(inv_word vocab i, i) \<in> set vocab" by (rule inv_word_known)
  moreover from assms(2) have "inj_on snd (set vocab)" by (simp add: distinct_map)
  ultimately have "inv_word vocab i = w"
    using assms(3) inj_onD [of snd "set vocab" "(inv_word vocab i, i)" "(w, i)"] by simp
  with a show ?thesis by simp
qed

text \<open>
  Claim C8. For \<open>vocab_size\<close> at least 1 (and a \<open>seq_length\<close> other than 0, for which
  line 183 raises), the vocabulary preprocess_text returns maps distinct words to
  distinct identifiers, holds at most \<open>vocab_size\<close> words, every identifier lies in
  \<open>0..vocab_size-1\<close>, looking a word up and reading its identifier back are inverse to
  each other, and the identifier 0 belongs to \<^verbatim>\<open><PAD>\<close> and to no other word.
\<close>

theorem vocabulary_bijective:
  assumes "1 \<le> vocab_size" and "seq_length \<noteq> 0"
  shows "\<exists>seqs vocab.
           preprocess_text tok texts vocab_size seq_length max_sequences = Inr (seqs, vocab) \<and>
           distinct (map fst vocab) \<and> distinct (map snd vocab) \<and>
           int (length vocab) \<le> vocab_size \<and>
           (\<forall>(w, i)\<in>set vocab. 0 \<le> i \<and> i < vocab_size \<and>
                               dict_get vocab w 0 = i \<and> inv_word vocab i = w) \<and>
           (''<PAD>'', 0) \<in> set vocab \<and>
           (\<forall>w. (w, 0) \<in> set vocab \<longrightarrow> w = ''<PAD>'')"
proof -
  let ?v = "build_vocab (concat (map tok texts)) vocab_size"
  from preprocess_text_vocab [OF assms(2)] obtain seqs
    where r: "preprocess_text tok texts vocab_size seq_length max_sequences = Inr (seqs, ?v)"
    by blast
  note p = build_vocab_properties [OF assms(1), of "concat (map tok texts)"]
  have "\<forall>(w, i)\<in>set ?v. 0 \<le> i \<and> i < vocab_size \<and> dict_get ?v w 0 = i \<and> inv_word ?v i = w"
    using p(4) bijection_round_trip [OF p(1) p(2)] by blast
  with r p(1,2,3,5,6) show ?thesis by blast
qed

lemma example_corpus_vocab:
  "build_vocab (concat (map simple_tokenize [''save money save more money save''])) 3 =
     [(''save'', 1), (''money'', 2), (''<PAD>'', 0)]"
  by (simp add: build_vocab_def most_common_words_def most_common_def Counter_def
        simple_tokenize_def dict_set_def dict_get_def dict_of_items_def enumerate_from0_def
        PAD_def upt_rec)

text \<open>
  The corpus "save money save more money save" with \<open>vocab_size = 3\<close>: the two most
  common words and the padding symbol.
\<close>

theorem vocabulary_bijective_witness:
  "\<exists>seqs vocab.
     preprocess_text simple_tokenize [''save money save more money save''] 3 2 10
       = Inr (seqs, vocab) \<and>
     vocab = [(''save'', 1), (''money'', 2), (''<PAD>'', 0)] \<and>
     distinct (map fst vocab) \<and> distinct (map snd vocab) \<and> int (length vocab) \<le> 3 \<and>
     (''<PAD>'', 0) \<in> set vocab"
proof -
  from vocabulary_bijective [of 3 2 simple_tokenize "[''save money save more money save'']" 10]
  obtain seqs vocab where
    r: "preprocess_text simple_tokenize [''save money save more money save''] 3 2 10
          = Inr (seqs, vocab)"
    and p: "distinct (map fst vocab)" "distinct (map snd vocab)" "int (length vocab) \<le> 3"
      "(''<PAD>'', 0) \<in> set vocab"
    by auto
  from preprocess_text_vocab [of 2 simple_tokenize "[''save money save more money save'']" 3 10] r
  have "vocab = build_vocab (concat (map simple_tokenize [''save money save more money save''])) 3"
    by auto
  then have "vocab = [(''save'', 1), (''money'', 2), (''<PAD>'', 0)]"
    by (simp only: example_corpus_vocab)
  with r p show ?thesis by blast
qed

section \<open>The sequences of preprocess_text\<close>

lemma py_range_elems:
  "0 < step \<Longrightarrow> i \<in> set (py_range a stop step) \<Longrightarrow> a \<le> i \<and> i < stop"
proof (induction a stop step rule: py_range.induct)
  case (1 a stop step)
  show ?case
  proof (cases "a < stop")
    case True
    with 1 show ?thesis by (subst (asm) (2) py_range.simps) (auto split: if_splits)
  next
    case False
    with 1 show ?thesis by (subst (asm) (2) py_range.simps) (auto split: if_splits)
  qed
qed

lemma py_slice_full:
  assumes "0 \<le> i" and "0 < s" and "i + s \<le> int (length xs)"
  shows "py_slice xs i (i + s) = take (nat s) (drop (nat i) xs)"
proof -
  have "nat i \<le> length xs" and "nat (i + s) \<le> length xs" using assms by linarith+
  then have "norm_index (length xs) i = nat i" and "norm_index (length xs) (i + s) = nat (i + s)"
    using assms by (simp_all add: norm_index_def min_def)
  moreover have "nat (i + s) = nat i + nat s" using assms by (simp add: nat_add_distrib)
  ultimately show ?thesis by (simp add: py_slice_def Let_def)
qed

lemma windows_concat_gen:
  assumes "0 < s" and "0 \<le> a" and "stop = int (length xs) - s"
  shows "concat (map (\<lambda>i. py_slice xs i (i + s)) (py_range a stop s)) =
           take (length (py_range a stop s) * nat s) (drop (nat a) xs)"
  using assms
proof (induction a stop s rule: py_range.induct)
  case (1 a stop s)
  show ?case
  proof (cases "a < stop")
    case False
    with 1 have "py_range a stop s = []" by (subst py_range.simps) simp
    then show ?thesis by simp
  next
    case True
    with 1 have r: "py_range a stop s = a # py_range (a + s) stop s"
      by (subst py_range.simps) simp
    have sl: "py_slice xs a (a + s) = take (nat s) (drop (nat a) xs)"
      by (rule py_slice_full) (use 1 True in auto)
    have IH: "concat (map (\<lambda>i. py_slice xs i (i + s)) (py_range (a + s) stop s)) =
           take (length (py_range (a + s) stop s) * nat s) (drop (nat (a + s)) xs)"
      using 1 True by simp
    have "nat (a + s) = nat s + nat a" using 1 by (simp add: nat_add_distrib)
    then have "drop (nat (a + s)) xs = drop (nat s) (drop (nat a) xs)" by simp
    with r sl IH show ?thesis by (simp add: take_add)
  qed
qed

lemma py_range_length_bounds:
  assumes "0 < s" and "a < stop"
  shows "stop \<le> a + int (length (py_range a stop s)) * s \<and>
         a + int (length (py_range a stop s)) * s < stop + s"
  using assms
proof (induction a stop s rule: py_range.induct)
  case (1 a stop s)
  then have r: "py_range a stop s = a # py_range (a + s) stop s"
    by (subst py_range.simps) simp
  show ?case
  proof (cases "a + s < stop")
    case True
    with 1 have "stop \<le> a + s + int (length (py_range (a + s) stop s)) * s \<and>
         a + s + int (length (py_range (a + s) stop s)) * s < stop + s" by simp
    with r show ?thesis by (simp add: algebra_simps)
  next
    case False
    then have "py_range (a + s) stop s = []" using 1 by (subst py_range.simps) simp
    with r False 1 show ?thesis by simp
  qed
qed

lemma py_range_empty: "0 < s \<Longrightarrow> stop \<le> a \<Longrightarrow> py_range a stop s = []"
  by (subst py_range.simps) simp

lemma windows_full:
  assumes "1 \<le> seq_length" and "w \<in> set (windows token_ids seq_length)"
  shows "int (length w) = seq_length \<and> pad_sequence seq_length w = w"
proof -
  from assms(2) obtain i where i: "i \<in> set (py_range 0 (int (length token_ids) - seq_length) seq_length)"
    and w: "w = py_slice token_ids i (i + seq_length)"
    by (auto simp: windows_def)
  from py_range_elems [OF _ i] assms(1) have b: "0 \<le> i" "i < int (length token_ids) - seq_length"
    by simp_all
  have "w = take (nat seq_length) (drop (nat i) token_ids)"
    unfolding w by (rule py_slice_full) (use b assms(1) in auto)
  moreover have "nat seq_length \<le> length token_ids - nat i" using b assms(1) by linarith
  ultimately have "int (length w) = seq_length" using assms(1) by (simp add: min_def)
  then show ?thesis by (simp add: pad_sequence_def py_repeat_def)
qed

lemma windows_concat:
  assumes "1 \<le> seq_length"
  shows "concat (windows token_ids seq_length) =
           take (length (windows token_ids seq_length) * nat seq_length) token_ids"
  using windows_concat_gen [of seq_length 0 "int (length token_ids) - seq_length" token_ids] assms
  by (simp add: windows_def)

lemma windows_drop_tail:
  assumes "1 \<le> seq_length" and "token_ids \<noteq> []"
  shows "length (windows token_ids seq_length) * nat seq_length < length token_ids \<and>
         length token_ids \<le> length (windows token_ids seq_length) * nat seq_length + nat seq_length"
proof -
  let ?L = "int (length token_ids)"
  let ?n = "length (py_range 0 (?L - seq_length) seq_length)"
  have n: "length (windows token_ids seq_length) = ?n" by (simp add: windows_def)
  have "int ?n * seq_length < ?L \<and> ?L \<le> int ?n * seq_length + seq_length"
  proof (cases "0 < ?L - seq_length")
    case True
    from py_range_length_bounds [OF _ True, of seq_length] assms(1) show ?thesis by simp
  next
    case False
    then have "py_range 0 (?L - seq_length) seq_length = []"
      using assms(1) by (intro py_range_empty) simp_all
    with False assms(2) show ?thesis by simp
  qed
  moreover have "int (?n * nat seq_length) = int ?n * seq_length" using assms(1) by simp
  ultimately have "int (?n * nat seq_length) < ?L \<and> ?L \<le> int (?n * nat seq_length) + seq_length"
    by simp
  then show ?thesis using assms(1) unfolding n by linarith
qed

text \<open>
  Claim C10. For \<open>seq_length\<close> at least 1 and \<open>max_sequences\<close> at least 0, preprocess_text
  returns at most \<open>max_sequences\<close> sequences of exactly \<open>seq_length\<close> identifiers each.
  Every window line 183 produces is full already, so the padding of line 185 leaves it
  as it is, and the returned sequences are the first \<open>max_sequences\<close> windows. The
  windows, read one after the other, are a prefix of the corpus that is shorter than the
  corpus whenever the corpus has a token: the tokens after it are dropped.
\<close>

theorem sequences_full_length:
  assumes "1 \<le> seq_length" and "0 \<le> max_sequences"
  shows "\<exists>seqs vocab.
           preprocess_text tok texts vocab_size seq_length max_sequences = Inr (seqs, vocab) \<and>
           (\<forall>s\<in>set seqs. int (length s) = seq_length) \<and>
           int (length seqs) \<le> max_sequences \<and>
           (\<forall>w\<in>set (windows (map (\<lambda>token. dict_get vocab token 0) (concat (map tok texts)))
                            seq_length).
              int (length w) = seq_length \<and> pad_sequence seq_length w = w) \<and>
           seqs = take (nat max_sequences)
                    (windows (map (\<lambda>token. dict_get vocab token 0) (concat (map tok texts)))
                       seq_length) \<and>
           concat (windows (map (\<lambda>token. dict_get vocab token 0) (concat (map tok texts)))
                     seq_length) =
             take (length (windows (map (\<lambda>token. dict_get vocab token 0)
                                      (concat (map tok texts))) seq_length) * nat seq_length)
                  (map (\<lambda>token. dict_get vocab token 0) (concat (map tok texts))) \<and>
           (concat (map tok texts) \<noteq> [] \<longrightarrow>
              length (windows (map (\<lambda>token. dict_get vocab token 0) (concat (map tok texts)))
                        seq_length) * nat seq_length
                < length (concat (map tok texts)))"
proof -
  let ?vocab = "build_vocab (concat (map tok texts)) vocab_size"
  let ?ids = "map (\<lambda>token. dict_get ?vocab token 0) (concat (map tok texts))"
  let ?ws = "windows ?ids seq_length"
  let ?seqs = "take (nat max_sequences) ?ws"
  have full: "\<forall>w\<in>set ?ws. int (length w) = seq_length \<and> pad_sequence seq_length w = w"
    using windows_full [OF assms(1)] by blast
  have sub: "set ?seqs \<subseteq> set ?ws" by (rule set_take_subset)
  from full sub have "map (pad_sequence seq_length) ?seqs = ?seqs"
    by (intro map_idI) blast
  then have r: "preprocess_text tok texts vocab_size seq_length max_sequences = Inr (?seqs, ?vocab)"
    using assms by (simp add: preprocess_text_def Let_def py_slice_to_nonneg)
  have each: "\<forall>s\<in>set ?seqs. int (length s) = seq_length" using full sub by blast
  have count: "int (length ?seqs) \<le> max_sequences" using assms(2) by simp
  have cc: "concat ?ws = take (length ?ws * nat seq_length) ?ids"
    using assms(1) by (rule windows_concat)
  have tail: "length ?ws * nat seq_length < length (concat (map tok texts))"
    if "concat (map tok texts) \<noteq> []"
  proof -
    from that have "?ids \<noteq> []" by simp
    from windows_drop_tail [OF assms(1) this] show ?thesis by simp
  qed
  from r each count full cc tail show ?thesis by blast
qed

lemma example_corpus_windows:
  "windows [1, 2, 1, 0, 2, 1] 2 = [[1, 2], [1, 0]]"
  by (simp add: windows_def py_range.simps py_slice_def norm_index_def)

text \<open>
  Six tokens and \<open>seq_length = 2\<close>: the starts are 0 and 2, two windows are returned, and
  the last two tokens are dropped.
\<close>

theorem sequences_full_length_witness:
  "\<exists>seqs vocab.
     preprocess_text simple_tokenize [''save money save more money save''] 3 2 10
       = Inr (seqs, vocab) \<and>
     seqs = [[1, 2], [1, 0]] \<and> int (length seqs) \<le> 10 \<and>
     concat seqs = take 4 (map (\<lambda>token. dict_get vocab token 0)
                             (simple_tokenize ''save money save more money save''))"
proof -
  let ?toks = "concat (map simple_tokenize [''save money save more money save''])"
  from sequences_full_length [of 2 10 simple_tokenize "[''save money save more money save'']" 3]
  obtain seqs vocab where
    r: "preprocess_text simple_tokenize [''save money save more money save''] 3 2 10
          = Inr (seqs, vocab)"
    and c: "int (length seqs) \<le> 10"
    and s: "seqs = take (nat 10) (windows (map (\<lambda>token. dict_get vocab token 0) ?toks) 2)"
    by auto
  from preprocess_text_vocab [of 2 simple_tokenize "[''save money save more money save'']" 3 10] r
  have "vocab = build_vocab ?toks 3" by auto
  then have v: "vocab = [(''save'', 1), (''money'', 2), (''<PAD>'', 0)]"
    by (simp only: example_corpus_vocab)
  have ids: "map (\<lambda>token. dict_get vocab token 0) ?toks = [1, 2, 1, 0, 2, 1]"
    by (simp add: v simple_tokenize_def dict_get_def)
  from s have seqs: "seqs = [[1, 2], [1, 0]]"
    by (simp only: ids example_corpus_windows) simp
  moreover have "concat seqs = take 4 (map (\<lambda>token. dict_get vocab token 0)
                             (simple_tokenize ''save money save more money save''))"
    using ids by (simp add: seqs)
  ultimately show ?thesis using r c by blast
qed

end
